theory Spec2Isabelle
  imports Main "HOL-Library.Sublist"
begin

section \<open>The TCP load balancer of loadbalancer/loadbalancer.py\<close>

text \<open>
  The program is one Python class, \<^verbatim>\<open>UniversalLoadBalancer\<close>. Its objects are
  modelled with an explicit store: Python lists and sockets are mutable objects that the
  program shares by reference, so a field that holds a list holds a reference into the
  store of list objects, and a socket is a reference into the store of socket objects.
  A new object gets the next free reference, which is the length of its store.
\<close>

subsection \<open>Data\<close>

type_synonym backend = "string \<times> int"

type_synonym ref = nat

type_synonym bytes = string

text \<open>The instance attributes set by \<^verbatim>\<open>__init__\<close>. The lock carries no data: it makes
  each \<^verbatim>\<open>with self.lock\<close> block one indivisible step of the model.\<close>

record UniversalLoadBalancer =
  address :: string
  port :: int
  all_backends :: ref
  healthy_backends :: ref
  current :: int

text \<open>What \<^verbatim>\<open>print\<close> writes, one constructor for each format string of the source,
  carrying the values it interpolates.\<close>

datatype line =
    ServerIsDown int
  | NoHealthyBackends
  | FailedToConnect int

datatype event =
    Printed line
  | ConnectAttempt ref backend
  | ThreadStarted ref ref

record sock =
  closed :: bool
  sent :: bytes

record world =
  lb :: UniversalLoadBalancer
  lists :: "backend list list"
  socks :: "sock list"
  trace :: "event list"

definition print :: "line \<Rightarrow> world \<Rightarrow> world" where
  "print l w = w\<lparr>trace := trace w @ [Printed l]\<rparr>"

subsection \<open>Construction\<close>

text \<open>
  \<^verbatim>\<open>__init__(self, bind_address, port, backends)\<close>: \<open>all_backends\<close> is the caller's
  list object itself, \<open>healthy_backends\<close> is \<^verbatim>\<open>list(backends)\<close>, a new list object with
  the same elements, and the cursor starts at 0. The constructor runs in a store \<open>ls\<close> of
  list objects in which \<open>backends\<close> is the reference of the argument.
\<close>

definition init :: "string \<Rightarrow> int \<Rightarrow> ref \<Rightarrow> backend list list \<Rightarrow> world" where
  "init bind_address port' backends ls =
     \<lparr>lb = \<lparr>address = bind_address, port = port', all_backends = backends,
            healthy_backends = length ls, current = 0\<rparr>,
      lists = ls @ [ls ! backends],
      socks = [],
      trace = []\<rparr>"

text \<open>The module's own configuration: \<^verbatim>\<open>my_servers\<close> and the balancer built from it.\<close>

definition my_servers :: "backend list" where
  "my_servers = [(''127.0.0.1'', 8001), (''127.0.0.1'', 8002), (''127.0.0.1'', 8003)]"

definition lb_world :: world where
  "lb_world = init ''0.0.0.0'' 80 0 [my_servers]"

text \<open>The lists the two fields refer to.\<close>

definition configured :: "world \<Rightarrow> backend list" where
  "configured w = lists w ! all_backends (lb w)"

definition healthy :: "world \<Rightarrow> backend list" where
  "healthy w = lists w ! healthy_backends (lb w)"

subsection \<open>Selection\<close>

text \<open>
  \<^verbatim>\<open>get_next_server\<close>: under the lock, an empty healthy list prints the warning and
  returns \<^verbatim>\<open>None\<close>; otherwise the element at \<^verbatim>\<open>current % len(healthy_backends)\<close> is
  returned and the cursor is incremented. Python's \<^verbatim>\<open>%\<close> with a positive divisor is the
  non-negative remainder, as \<open>mod\<close> on \<open>int\<close> is.
\<close>

definition get_next_server :: "world \<Rightarrow> backend option \<times> world" where
  "get_next_server w =
     (if healthy w = [] then (None, print NoHealthyBackends w)
      else
        let server = healthy w ! nat (current (lb w) mod int (length (healthy w)))
        in (Some server, w\<lparr>lb := (lb w)\<lparr>current := current (lb w) + 1\<rparr>\<rparr>))"

text \<open>Successive calls: the backends returned by \<open>n\<close> calls, and the state after them.\<close>

fun selections :: "nat \<Rightarrow> world \<Rightarrow> backend option list \<times> world" where
  "selections 0 w = ([], w)"
| "selections (Suc n) w =
     (let (r, w') = get_next_server w; (rs, w'') = selections n w'
      in (r # rs, w''))"

subsection \<open>The health monitor\<close>

text \<open>
  \<^verbatim>\<open>health_check\<close> is a thread that never returns. Its \<^verbatim>\<open>while True\<close> body is modelled
  in steps, one for each point at which another thread can observe the state:
  \<^item> \<open>Start\<close>: \<^verbatim>\<open>alive = []\<close> creates a new, empty list object;
  \<^item> \<open>Probing alive i\<close>: the \<^verbatim>\<open>for\<close> loop is about to visit index \<open>i\<close> of
    \<open>all_backends\<close>. When the index is in range the server is probed with
    \<^verbatim>\<open>socket.create_connection(server, timeout=1)\<close>: on success it is appended to the
    list object \<open>alive\<close>, on any exception the line is printed. When the index is out of
    range the loop ends;
  \<^item> \<open>Publishing alive\<close>: under the lock, \<^verbatim>\<open>self.healthy_backends = alive\<close>;
  \<^item> \<open>Sleeping\<close>: \<^verbatim>\<open>time.sleep(5)\<close>, then the next iteration.
  The outcome of a probe is the environment's: the argument \<open>ok\<close> of a step says whether
  the connection was established; the steps that do not probe ignore it. The socket of a
  probe is closed by its \<^verbatim>\<open>with\<close> block before the next statement, so it is not kept in
  the store of sockets.
\<close>

datatype hc_pc = Start | Probing ref nat | Publishing ref | Sleeping

fun health_check :: "bool \<Rightarrow> hc_pc \<times> world \<Rightarrow> hc_pc \<times> world" where
  "health_check ok (Start, w) =
     (Probing (length (lists w)) 0, w\<lparr>lists := lists w @ [[]]\<rparr>)"
| "health_check ok (Probing alive i, w) =
     (if i < length (configured w) then
        let server = configured w ! i
        in (Probing alive (Suc i),
            if ok then w\<lparr>lists := (lists w)[alive := lists w ! alive @ [server]]\<rparr>
            else print (ServerIsDown (snd server)) w)
      else (Publishing alive, w))"
| "health_check ok (Publishing alive, w) =
     (Sleeping, w\<lparr>lb := (lb w)\<lparr>healthy_backends := alive\<rparr>\<rparr>)"
| "health_check ok (Sleeping, w) = (Start, w)"

text \<open>Consecutive steps of the monitor, each with the outcome the environment gives it.\<close>

fun health_steps :: "bool list \<Rightarrow> hc_pc \<times> world \<Rightarrow> hc_pc \<times> world" where
  "health_steps [] s = s"
| "health_steps (ok # oks) s = health_steps oks (health_check ok s)"

text \<open>
  One whole cycle from \<open>Start\<close>: the allocation, one probe for each outcome of
  \<open>outcomes\<close> (the \<open>i\<close>-th outcome is that of the \<open>i\<close>-th configured backend), the end of
  the loop, and the publication. The outcomes given to the three steps that do not
  probe are arbitrary.
\<close>

definition cycle_steps :: "bool list \<Rightarrow> bool list" where
  "cycle_steps outcomes = False # outcomes @ [False, False]"

text \<open>The backends whose probe succeeded, in configured order.\<close>

definition succeeded :: "backend list \<Rightarrow> bool list \<Rightarrow> backend list" where
  "succeeded servers outcomes = map fst (filter snd (zip servers outcomes))"

subsection \<open>Sockets\<close>

text \<open>
  The result of a library call that can block: it returns a value, raises an exception
  (every exception of a socket call is an \<^verbatim>\<open>OSError\<close>, hence an \<^verbatim>\<open>Exception\<close>), or
  never returns.
\<close>

datatype 'a io = Returned 'a | Raised | Blocked

text \<open>
  What the network holds for the successive \<^verbatim>\<open>recv\<close> calls on a socket: data that has
  arrived (empty data is the orderly close of the peer, a zero-length read), or an error.
  When nothing is left, \<^verbatim>\<open>recv\<close> blocks for ever. What a socket does with the bytes
  written to it: it accepts everything, or its connection breaks after a number of
  further bytes (\<^verbatim>\<open>sendall\<close> raises, some of the data may have been sent), or its
  peer stops reading after a number of further bytes (\<^verbatim>\<open>sendall\<close> blocks).
\<close>

datatype rx_event = Data bytes | RecvError

datatype tx_mode = Accepts | Breaks nat | Stalls nat

definition socket_new :: "world \<Rightarrow> ref \<times> world" where
  "socket_new w = (length (socks w), w\<lparr>socks := socks w @ [\<lparr>closed = False, sent = []\<rparr>]\<rparr>)"

text \<open>\<^verbatim>\<open>close\<close> marks the socket object closed; closing a closed socket changes nothing.
  The call is taken to return always: an exception of \<^verbatim>\<open>close\<close> itself is not modelled.\<close>

definition close :: "ref \<Rightarrow> world \<Rightarrow> world" where
  "close s w = w\<lparr>socks := (socks w)[s := (socks w ! s)\<lparr>closed := True\<rparr>]\<rparr>"

definition sock_write :: "ref \<Rightarrow> bytes \<Rightarrow> world \<Rightarrow> world" where
  "sock_write s data w = w\<lparr>socks := (socks w)[s := (socks w ! s)\<lparr>sent := sent (socks w ! s) @ data\<rparr>]\<rparr>"

text \<open>
  \<^verbatim>\<open>recv(bufsize)\<close> on a closed socket raises. Otherwise it returns at most \<open>bufsize\<close>
  bytes of the data that has arrived; what does not fit stays for the next call.
\<close>

definition recv :: "ref \<Rightarrow> nat \<Rightarrow> rx_event list \<Rightarrow> world \<Rightarrow> bytes io \<times> rx_event list" where
  "recv s bufsize rx w =
     (if closed (socks w ! s) then (Raised, rx)
      else case rx of
        [] \<Rightarrow> (Blocked, [])
      | RecvError # rx' \<Rightarrow> (Raised, rx')
      | Data d # rx' \<Rightarrow>
          if length d \<le> bufsize then (Returned d, rx')
          else (Returned (take bufsize d), Data (drop bufsize d) # rx'))"

definition sendall :: "ref \<Rightarrow> bytes \<Rightarrow> tx_mode \<Rightarrow> world \<Rightarrow> unit io \<times> tx_mode \<times> world" where
  "sendall s data tx w =
     (if closed (socks w ! s) then (Raised, tx, w)
      else case tx of
        Accepts \<Rightarrow> (Returned (), Accepts, sock_write s data w)
      | Breaks k \<Rightarrow>
          if length data \<le> k then (Returned (), Breaks (k - length data), sock_write s data w)
          else (Raised, Breaks 0, sock_write s (take k data) w)
      | Stalls k \<Rightarrow>
          if length data \<le> k then (Returned (), Stalls (k - length data), sock_write s data w)
          else (Blocked, Stalls 0, sock_write s (take k data) w))"

subsection \<open>The relay\<close>

text \<open>The size of what is still to be received: it decreases with every non-empty read.\<close>

fun rx_size :: "rx_event list \<Rightarrow> nat" where
  "rx_size [] = 0"
| "rx_size (Data d # rx) = Suc (length d + rx_size rx)"
| "rx_size (RecvError # rx) = Suc (rx_size rx)"

text \<open>
  The \<^verbatim>\<open>while True\<close> loop of \<^verbatim>\<open>proxy_data\<close>: read up to 4096 bytes, leave the loop on
  empty data, else send them all. The result says how the loop ended: by \<^verbatim>\<open>break\<close>, by
  an exception of \<^verbatim>\<open>recv\<close> or \<^verbatim>\<open>sendall\<close>, or not at all.
\<close>

function proxy_loop :: "rx_event list \<Rightarrow> tx_mode \<Rightarrow> ref \<Rightarrow> ref \<Rightarrow> world \<Rightarrow> unit io \<times> world" where
  "proxy_loop rx tx source destination w =
     (case recv source 4096 rx w of
        (Raised, rx') \<Rightarrow> (Raised, w)
      | (Blocked, rx') \<Rightarrow> (Blocked, w)
      | (Returned data, rx') \<Rightarrow>
          if data = [] then (Returned (), w)
          else (case sendall destination data tx w of
                  (Raised, tx', w') \<Rightarrow> (Raised, w')
                | (Blocked, tx', w') \<Rightarrow> (Blocked, w')
                | (Returned u, tx', w') \<Rightarrow> proxy_loop rx' tx' source destination w'))"
  by pat_completeness auto
termination
proof (relation "measure (\<lambda>(rx, tx, source, destination, w). rx_size rx)")
  show "wf (measure (\<lambda>(rx, tx, source, destination, w). rx_size rx))"
    by simp
next
  fix rx rx' :: "rx_event list" and tx tx' :: tx_mode and source destination :: ref
    and w w' :: world and x :: "bytes io" and data :: bytes
  assume r: "(x, rx') = recv source 4096 rx w" "x = Returned data" "data \<noteq> []"
  have "rx_size rx' < rx_size rx"
  proof (cases rx)
    case Nil
    with r show ?thesis by (simp add: recv_def split: if_splits)
  next
    case (Cons e es)
    with r show ?thesis
      by (cases e) (auto simp: recv_def split: if_splits)
  qed
  then show "((rx', tx', source, destination, w'), (rx, tx, source, destination, w))
               \<in> measure (\<lambda>(rx, tx, source, destination, w). rx_size rx)"
    by simp
qed

declare proxy_loop.simps [simp del]

text \<open>
  \<^verbatim>\<open>proxy_data\<close>: the loop inside \<^verbatim>\<open>try\<close>; \<^verbatim>\<open>except Exception: pass\<close> turns an
  exception of the loop into a normal end; \<^verbatim>\<open>finally\<close> closes the source, then the
  destination. When the loop never ends, nothing is closed.
\<close>

definition proxy_data :: "rx_event list \<Rightarrow> tx_mode \<Rightarrow> ref \<Rightarrow> ref \<Rightarrow> world \<Rightarrow> unit io \<times> world" where
  "proxy_data rx tx source destination w =
     (case proxy_loop rx tx source destination w of
        (Blocked, w') \<Rightarrow> (Blocked, w')
      | (Returned u, w') \<Rightarrow> (Returned (), close destination (close source w'))
      | (Raised, w') \<Rightarrow> (Returned (), close destination (close source w')))"

subsection \<open>The dispatcher\<close>

text \<open>
  What can go wrong in one call of \<^verbatim>\<open>handle_request\<close> after a backend was selected:
  creating the socket (outside the \<^verbatim>\<open>try\<close>), the connect, or the start of one of the
  two threads (inside it).
\<close>

datatype fault = NoFault | SocketFails | ConnectFails | FirstStartFails | SecondStartFails

definition connect :: "ref \<Rightarrow> backend \<Rightarrow> world \<Rightarrow> world" where
  "connect s server w = w\<lparr>trace := trace w @ [ConnectAttempt s server]\<rparr>"

definition start_thread :: "ref \<Rightarrow> ref \<Rightarrow> world \<Rightarrow> world" where
  "start_thread source destination w = w\<lparr>trace := trace w @ [ThreadStarted source destination]\<rparr>"

text \<open>The \<^verbatim>\<open>except Exception as e\<close> handler: print, close the client connection.\<close>

definition on_exception :: "int \<Rightarrow> ref \<Rightarrow> world \<Rightarrow> world" where
  "on_exception backend_port client_conn w = close client_conn (print (FailedToConnect backend_port) w)"

text \<open>
  \<^verbatim>\<open>handle_request(client_conn)\<close>. A thread that was started runs \<^verbatim>\<open>proxy_data\<close> on
  its own; the call only records that it was started.
\<close>

definition handle_request :: "fault \<Rightarrow> ref \<Rightarrow> world \<Rightarrow> unit io \<times> world" where
  "handle_request env client_conn w =
     (case get_next_server w of
        (None, w1) \<Rightarrow> (Returned (), close client_conn w1)
      | (Some (backend_host, backend_port), w1) \<Rightarrow>
          if env = SocketFails then (Raised, w1)
          else
            let (backend_conn, w2) = socket_new w1;
                w3 = connect backend_conn (backend_host, backend_port) w2
            in if env = ConnectFails then (Returned (), on_exception backend_port client_conn w3)
               else if env = FirstStartFails then (Returned (), on_exception backend_port client_conn w3)
               else
                 let w4 = start_thread client_conn backend_conn w3
                 in if env = SecondStartFails
                    then (Returned (), on_exception backend_port client_conn w4)
                    else (Returned (), start_thread backend_conn client_conn w4))"





subsection \<open>The threads together\<close>

text \<open>
  The balancer's state changes by steps of its threads: a step of the health monitor,
  the listener accepting a client connection (a new socket), a dispatcher thread running
  \<^verbatim>\<open>handle_request\<close>, a relay thread running \<^verbatim>\<open>proxy_data\<close>. The lists and the cursor
  are only touched under the lock, so for them these steps are the program's.
\<close>

datatype action =
    Health bool
  | Accept
  | Handle fault ref
  | Relay "rx_event list" tx_mode ref ref

fun step :: "action \<Rightarrow> hc_pc \<times> world \<Rightarrow> hc_pc \<times> world" where
  "step (Health ok) s = health_check ok s"
| "step Accept (pc, w) = (pc, snd (socket_new w))"
| "step (Handle env client_conn) (pc, w) = (pc, snd (handle_request env client_conn w))"
| "step (Relay rx tx source destination) (pc, w) = (pc, snd (proxy_data rx tx source destination w))"

fun exec :: "action list \<Rightarrow> hc_pc \<times> world \<Rightarrow> hc_pc \<times> world" where
  "exec [] s = s"
| "exec (a # as) s = exec as (step a s)"

subsection \<open>A destination with room\<close>

text \<open>The destination takes \<open>n\<close> more bytes without breaking or stalling.\<close>

fun accepts :: "tx_mode \<Rightarrow> nat \<Rightarrow> bool" where
  "accepts Accepts n = True"
| "accepts (Breaks k) n = (n \<le> k)"
| "accepts (Stalls k) n = (n \<le> k)"

subsection \<open>What holds in every reachable state\<close>

text \<open>
  The references of the two fields are references of list objects, and the healthy list
  is a subsequence of the configured one. While the monitor is in its loop, its list
  \<open>alive\<close> is a list object of its own (neither the configured nor the published healthy
  list) and holds a subsequence of the backends visited so far.
\<close>

fun monitor_ok :: "hc_pc \<Rightarrow> world \<Rightarrow> bool" where
  "monitor_ok Start w = True"
| "monitor_ok (Probing alive i) w =
     (alive < length (lists w) \<and> alive \<noteq> all_backends (lb w) \<and> alive \<noteq> healthy_backends (lb w)
      \<and> subseq (lists w ! alive) (take i (configured w)))"
| "monitor_ok (Publishing alive) w =
     (alive < length (lists w) \<and> alive \<noteq> all_backends (lb w) \<and> alive \<noteq> healthy_backends (lb w)
      \<and> subseq (lists w ! alive) (configured w))"
| "monitor_ok Sleeping w = True"

definition invariant :: "hc_pc \<times> world \<Rightarrow> bool" where
  "invariant s =
     (all_backends (lb (snd s)) < length (lists (snd s))
      \<and> healthy_backends (lb (snd s)) < length (lists (snd s))
      \<and> subseq (healthy (snd s)) (configured (snd s))
      \<and> monitor_ok (fst s) (snd s))"

subsection \<open>States and runs of the configured balancer\<close>

text \<open>The balancer of the module after the listener accepted one client connection
  (socket 0).\<close>

definition one_client :: world where
  "one_client = snd (socket_new lb_world)"

text \<open>The same with a second socket, for a backend (socket 1); both sockets are open.\<close>

definition two_sockets :: world where
  "two_sockets = snd (socket_new one_client)"

text \<open>The balancer with one client connection after one cycle of the health monitor in
  which every probe failed.\<close>

definition all_down :: world where
  "all_down = snd (health_steps (cycle_steps [False, False, False]) (Start, one_client))"

text \<open>The probe outcomes of a cycle in which only the second backend is down.\<close>

definition b_fails :: "bool list" where
  "b_fails = [True, False, True]"

text \<open>The steps of such a cycle, followed by two client connections that are accepted
  and dispatched, the connect failing for the second.\<close>

definition second_down :: "action list" where
  "second_down = map Health (cycle_steps b_fails)
                   @ [Accept, Handle NoFault 0, Accept, Handle ConnectFails 2]"

section \<open>Selection: properties\<close>

lemma healthy_current_update [simp]:
  "healthy (w\<lparr>lb := (lb w)\<lparr>current := c\<rparr>\<rparr>) = healthy w"
  by (simp add: healthy_def)

text \<open>
  Claim C3. In a state whose healthy list is not empty, one call of
  \<open>get_next_server\<close> returns the element of the healthy list at index
  \<open>current mod length\<close> and increments the cursor by exactly one, changing nothing else.
\<close>

theorem get_next_server_nonempty:
  assumes "healthy w \<noteq> []"
  shows "fst (get_next_server w)
           = Some (healthy w ! nat (current (lb w) mod int (length (healthy w))))
       \<and> current (lb (snd (get_next_server w))) = current (lb w) + 1
       \<and> snd (get_next_server w) = w\<lparr>lb := (lb w)\<lparr>current := current (lb w) + 1\<rparr>\<rparr>"
  using assms by (simp add: get_next_server_def Let_def)

theorem get_next_server_nonempty_witness:
  "healthy lb_world \<noteq> []
     \<and> fst (get_next_server lb_world) = Some (''127.0.0.1'', 8001)
     \<and> current (lb (snd (get_next_server lb_world))) = 1"
  using get_next_server_nonempty [of lb_world]
  by (simp add: lb_world_def init_def healthy_def my_servers_def)

lemma selections_stable:
  assumes "healthy w \<noteq> []"
  shows "selections n w
           = (map (\<lambda>k. Some (healthy w ! nat ((current (lb w) + int k) mod int (length (healthy w))))) [0..<n],
              w\<lparr>lb := (lb w)\<lparr>current := current (lb w) + int n\<rparr>\<rparr>)"
  using assms
proof (induction n arbitrary: w)
  case 0
  then show ?case by simp
next
  case (Suc n)
  let ?w' = "w\<lparr>lb := (lb w)\<lparr>current := current (lb w) + 1\<rparr>\<rparr>"
  have g: "get_next_server w
             = (Some (healthy w ! nat (current (lb w) mod int (length (healthy w)))), ?w')"
    using Suc.prems by (simp add: get_next_server_def Let_def)
  have h: "healthy ?w' \<noteq> []" using Suc.prems by simp
  have u: "[0..<Suc n] = 0 # map Suc [0..<n]"
    by (simp add: upt_conv_Cons map_Suc_upt del: upt_Suc)
  have ih: "selections n ?w'
              = (map (\<lambda>k. Some (healthy w ! nat ((current (lb w) + int (Suc k)) mod int (length (healthy w))))) [0..<n],
                 w\<lparr>lb := (lb w)\<lparr>current := current (lb w) + int (Suc n)\<rparr>\<rparr>)"
    using Suc.IH [OF h] by (simp add: add.assoc)
  show ?case
    unfolding u
    by (simp add: g ih o_def del: upt_Suc)
qed

lemma nat_mod_shift:
  assumes "0 < N"
  shows "nat ((c + int (k + i)) mod int N) = (nat ((c + int k) mod int N) + i) mod N"
proof -
  have "(c + int (k + i)) mod int N = ((c + int k) mod int N + int i) mod int N"
    by (simp add: mod_add_left_eq add.assoc)
  also have "\<dots> = int ((nat ((c + int k) mod int N) + i) mod N)"
    using assms by (simp add: zmod_int)
  finally show ?thesis by simp
qed

text \<open>
  Claim C2. While the healthy list stays the same non-empty list of length \<open>N\<close>, the
  backends returned by successive calls of \<open>get_next_server\<close> repeat with period \<open>N\<close>,
  and every \<open>N\<close> consecutive calls return the healthy list once, in its order, starting
  at the position of the cursor (the list rotated by \<open>current mod N\<close>). With the healthy
  list \<open>[A, B, C]\<close> and the cursor at 0 the first three calls return \<open>A\<close>, \<open>B\<close>, \<open>C\<close>.
  The calls themselves leave the healthy list as it is.
\<close>

theorem round_robin_periodic:
  assumes "healthy w \<noteq> []"
  shows "length (fst (selections n w)) = n
       \<and> healthy (snd (selections n w)) = healthy w
       \<and> (\<forall>k. k + length (healthy w) < n \<longrightarrow>
             fst (selections n w) ! (k + length (healthy w)) = fst (selections n w) ! k)
       \<and> (\<forall>k. k + length (healthy w) \<le> n \<longrightarrow>
             take (length (healthy w)) (drop k (fst (selections n w)))
               = map Some (rotate (nat ((current (lb w) + int k) mod int (length (healthy w)))) (healthy w)))
       \<and> (\<forall>A B C. healthy w = [A, B, C] \<and> current (lb w) = 0 \<longrightarrow>
             fst (selections 3 w) = [Some A, Some B, Some C])"
proof -
  let ?N = "length (healthy w)"
  let ?c = "current (lb w)"
  have N: "0 < ?N" using assms by simp
  have sel: "\<And>m. fst (selections m w)
               = map (\<lambda>k. Some (healthy w ! nat ((?c + int k) mod int ?N))) [0..<m]"
    by (simp add: selections_stable [OF assms])
  have len: "length (fst (selections n w)) = n"
    by (simp add: sel)
  have stable: "healthy (snd (selections n w)) = healthy w"
    by (simp add: selections_stable [OF assms])
  have periodic: "fst (selections n w) ! (k + ?N) = fst (selections n w) ! k"
    if "k + ?N < n" for k
  proof -
    have "(?c + int (k + ?N)) mod int ?N = (?c + int k) mod int ?N"
      by (simp add: add.assoc [symmetric])
    with that show ?thesis by (simp add: sel)
  qed
  have window: "take ?N (drop k (fst (selections n w)))
                  = map Some (rotate (nat ((?c + int k) mod int ?N)) (healthy w))"
    if "k + ?N \<le> n" for k
  proof (rule nth_equalityI)
    show "length (take ?N (drop k (fst (selections n w))))
            = length (map Some (rotate (nat ((?c + int k) mod int ?N)) (healthy w)))"
      using that by (simp add: len)
  next
    fix i assume "i < length (take ?N (drop k (fst (selections n w))))"
    then have i: "i < ?N" by simp
    then have "take ?N (drop k (fst (selections n w))) ! i = fst (selections n w) ! (k + i)"
      using that by (simp add: len)
    also have "\<dots> = Some (healthy w ! nat ((?c + int (k + i)) mod int ?N))"
      using that i by (simp add: sel)
    also have "\<dots> = Some (healthy w ! ((nat ((?c + int k) mod int ?N) + i) mod ?N))"
      by (simp only: nat_mod_shift [OF N])
    also have "\<dots> = map Some (rotate (nat ((?c + int k) mod int ?N)) (healthy w)) ! i"
      using i by (simp add: nth_rotate)
    finally show "take ?N (drop k (fst (selections n w))) ! i
                    = map Some (rotate (nat ((?c + int k) mod int ?N)) (healthy w)) ! i" .
  qed
  have abc: "fst (selections 3 w) = [Some A, Some B, Some C]"
    if "healthy w = [A, B, C]" "current (lb w) = 0" for A B C
  proof -
    have "[0..<3] = [0, 1, 2]" by (simp add: upt_rec)
    with that show ?thesis by (simp add: sel)
  qed
  from len stable periodic window abc show ?thesis by blast
qed

theorem round_robin_periodic_witness:
  "healthy lb_world \<noteq> []
     \<and> fst (selections 7 lb_world)
         = map Some [(''127.0.0.1'', 8001), (''127.0.0.1'', 8002), (''127.0.0.1'', 8003),
                     (''127.0.0.1'', 8001), (''127.0.0.1'', 8002), (''127.0.0.1'', 8003),
                     (''127.0.0.1'', 8001)]
     \<and> fst (selections 7 lb_world) ! (1 + 3) = fst (selections 7 lb_world) ! 1
     \<and> take 3 (drop 3 (fst (selections 7 lb_world))) = map Some my_servers
     \<and> fst (selections 3 lb_world) = map Some my_servers"
proof -
  have h: "healthy lb_world = my_servers"
    by (simp add: lb_world_def init_def healthy_def)
  have ne: "healthy lb_world \<noteq> []"
    by (simp add: h my_servers_def)
  have c: "current (lb lb_world) = 0"
    by (simp add: lb_world_def init_def)
  have s7: "fst (selections 7 lb_world)
         = map Some [(''127.0.0.1'', 8001), (''127.0.0.1'', 8002), (''127.0.0.1'', 8003),
                     (''127.0.0.1'', 8001), (''127.0.0.1'', 8002), (''127.0.0.1'', 8003),
                     (''127.0.0.1'', 8001)]"
    by (simp add: selections_stable [OF ne] h c my_servers_def upt_rec)
  note t = round_robin_periodic [OF ne, of 7]
  have l: "length (healthy lb_world) = 3"
    by (simp add: h my_servers_def)
  from t have "1 + length (healthy lb_world) < 7 \<longrightarrow>
      fst (selections 7 lb_world) ! (1 + length (healthy lb_world)) = fst (selections 7 lb_world) ! 1"
    by blast
  then have p: "fst (selections 7 lb_world) ! (1 + 3) = fst (selections 7 lb_world) ! 1"
    unfolding l by simp
  from t have "3 + length (healthy lb_world) \<le> 7 \<longrightarrow>
      take (length (healthy lb_world)) (drop 3 (fst (selections 7 lb_world)))
        = map Some (rotate (nat ((current (lb lb_world) + int 3) mod int (length (healthy lb_world))))
                      (healthy lb_world))"
    by blast
  then have w: "take 3 (drop 3 (fst (selections 7 lb_world))) = map Some my_servers"
    unfolding l c by (simp add: h)
  from t have "healthy lb_world = [(''127.0.0.1'', 8001), (''127.0.0.1'', 8002), (''127.0.0.1'', 8003)]
        \<and> current (lb lb_world) = 0 \<longrightarrow>
      fst (selections 3 lb_world)
        = [Some (''127.0.0.1'', 8001), Some (''127.0.0.1'', 8002), Some (''127.0.0.1'', 8003)]"
    by blast
  then have a: "fst (selections 3 lb_world) = map Some my_servers"
    by (simp add: h c my_servers_def)
  from ne s7 p w a show ?thesis by blast
qed

section \<open>Sockets and the dispatcher: properties\<close>

lemma close_fields [simp]:
  "lb (close s w) = lb w" "lists (close s w) = lists w" "trace (close s w) = trace w"
  "length (socks (close s w)) = length (socks w)"
  by (simp_all add: close_def)

lemma close_closed [simp]:
  "s < length (socks w) \<Longrightarrow> closed (socks (close s w) ! s)"
  by (simp add: close_def)

lemma close_other [simp]:
  "t \<noteq> s \<Longrightarrow> socks (close s w) ! t = socks w ! t"
  by (simp add: close_def)

lemma close_keeps_closed:
  "closed (socks w ! t) \<Longrightarrow> closed (socks (close s w) ! t)"
  by (cases "t = s"; cases "s < length (socks w)") (simp_all add: close_def not_less list_update_beyond)

lemma print_fields [simp]:
  "lb (print l w) = lb w" "lists (print l w) = lists w" "socks (print l w) = socks w"
  "trace (print l w) = trace w @ [Printed l]"
  by (simp_all add: print_def)

lemma healthy_print [simp]: "healthy (print l w) = healthy w"
  by (simp add: healthy_def)

lemma configured_print [simp]: "configured (print l w) = configured w"
  by (simp add: configured_def)

text \<open>
  Claim C4. When the healthy list is empty, \<open>get_next_server\<close> returns \<open>None\<close> (it
  prints its warning and changes nothing else), and \<open>handle_request\<close>, whatever the
  environment would have done, returns after closing the client connection: no socket
  was created and the trace holds no connect attempt, only the printed warning.
\<close>

theorem no_backend_rejects:
  assumes "healthy w = []" and "client_conn < length (socks w)"
  shows "get_next_server w = (None, print NoHealthyBackends w)
       \<and> handle_request env client_conn w
           = (Returned (), close client_conn (print NoHealthyBackends w))
       \<and> closed (socks (snd (handle_request env client_conn w)) ! client_conn)
       \<and> length (socks (snd (handle_request env client_conn w))) = length (socks w)
       \<and> trace (snd (handle_request env client_conn w)) = trace w @ [Printed NoHealthyBackends]
       \<and> lb (snd (handle_request env client_conn w)) = lb w"
  using assms by (simp add: handle_request_def get_next_server_def)


lemma all_down_eval:
  "healthy all_down = []" "length (socks all_down) = 1"
  by (simp_all add: all_down_def one_client_def cycle_steps_def socket_new_def lb_world_def init_def
      healthy_def configured_def my_servers_def print_def)

theorem no_backend_rejects_witness:
  "healthy all_down = [] \<and> (0::nat) < length (socks all_down)
     \<and> fst (get_next_server all_down) = None
     \<and> fst (handle_request NoFault 0 all_down) = Returned ()
     \<and> closed (socks (snd (handle_request NoFault 0 all_down)) ! 0)
     \<and> length (socks (snd (handle_request NoFault 0 all_down))) = 1"
  using no_backend_rejects [of all_down 0 NoFault] by (simp add: all_down_eval)

lemma socket_new_fields [simp]:
  "lb (snd (socket_new w)) = lb w" "lists (snd (socket_new w)) = lists w"
  "trace (snd (socket_new w)) = trace w"
  "fst (socket_new w) = length (socks w)"
  "socks (snd (socket_new w)) = socks w @ [\<lparr>closed = False, sent = []\<rparr>]"
  by (simp_all add: socket_new_def)

lemma connect_fields [simp]:
  "lb (connect s b w) = lb w" "lists (connect s b w) = lists w" "socks (connect s b w) = socks w"
  "trace (connect s b w) = trace w @ [ConnectAttempt s b]"
  by (simp_all add: connect_def)

lemma start_thread_fields [simp]:
  "lb (start_thread s d w) = lb w" "lists (start_thread s d w) = lists w"
  "socks (start_thread s d w) = socks w"
  "trace (start_thread s d w) = trace w @ [ThreadStarted s d]"
  by (simp_all add: start_thread_def)

lemma on_exception_fields [simp]:
  "lb (on_exception p c w) = lb w" "lists (on_exception p c w) = lists w"
  "length (socks (on_exception p c w)) = length (socks w)"
  "trace (on_exception p c w) = trace w @ [Printed (FailedToConnect p)]"
  by (simp_all add: on_exception_def)

text \<open>
  The statements of \<open>handle_request\<close> when the connect to the selected backend raises:
  the handler prints and closes the client connection. No statement of the body closes
  the socket that was created for the backend: when the last statement has run it is
  still open.
\<close>

lemma handle_request_connect_fails:
  assumes "healthy w \<noteq> []" and "client_conn < length (socks w)"
  shows "fst (handle_request ConnectFails client_conn w) = Returned ()
       \<and> length (socks (snd (handle_request ConnectFails client_conn w))) = Suc (length (socks w))
       \<and> closed (socks (snd (handle_request ConnectFails client_conn w)) ! client_conn)
       \<and> \<not> closed (socks (snd (handle_request ConnectFails client_conn w)) ! length (socks w))"
  using assms
  by (auto simp: handle_request_def get_next_server_def Let_def on_exception_def
      socket_new_def close_def nth_append split: prod.splits)




section \<open>Construction: properties\<close>

lemma init_fields:
  "lb (init a p backends ls)
     = \<lparr>address = a, port = p, all_backends = backends, healthy_backends = length ls, current = 0\<rparr>"
  "lists (init a p backends ls) = ls @ [ls ! backends]"
  "socks (init a p backends ls) = []" "trace (init a p backends ls) = []"
  by (simp_all add: init_def)

lemma selections_from_zero:
  assumes "current (lb w) = 0"
  shows "fst (selections (length (healthy w)) w) = map Some (healthy w)"
proof (cases "healthy w = []")
  case True
  then show ?thesis by simp
next
  case False
  have "map (\<lambda>k. Some (healthy w ! nat (int k mod int (length (healthy w))))) [0..<length (healthy w)]
          = map (\<lambda>k. Some (healthy w ! k)) [0..<length (healthy w)]"
    by (rule map_cong) (simp_all add: zmod_int [symmetric])
  also have "\<dots> = map Some (map (\<lambda>k. healthy w ! k) [0..<length (healthy w)])"
    by (simp add: o_def)
  also have "\<dots> = map Some (healthy w)"
    by (simp only: map_nth)
  finally show ?thesis
    by (simp add: selections_stable [OF False] assms)
qed

text \<open>
  Claim C10. Right after construction the healthy list has the elements of the
  configured list, in the same order, and is a new list object: its reference is not
  the reference of \<open>all_backends\<close> nor of any list object that existed before, and the
  objects that existed are unchanged. The cursor is 0, so as many selections as there
  are configured backends return each of them, in order, though none was ever probed.
\<close>

theorem init_healthy_is_fresh_copy:
  assumes "backends < length ls"
  shows "healthy (init a p backends ls) = ls ! backends
       \<and> configured (init a p backends ls) = ls ! backends
       \<and> healthy_backends (lb (init a p backends ls)) \<noteq> all_backends (lb (init a p backends ls))
       \<and> healthy_backends (lb (init a p backends ls)) = length ls
       \<and> take (length ls) (lists (init a p backends ls)) = ls
       \<and> current (lb (init a p backends ls)) = 0
       \<and> fst (selections (length (ls ! backends)) (init a p backends ls)) = map Some (ls ! backends)"
proof -
  let ?w = "init a p backends ls"
  have h: "healthy ?w = ls ! backends"
    by (simp add: healthy_def init_fields)
  have c: "configured ?w = ls ! backends"
    using assms by (simp add: configured_def init_fields nth_append)
  have r: "healthy_backends (lb ?w) \<noteq> all_backends (lb ?w)" "healthy_backends (lb ?w) = length ls"
    using assms by (simp_all add: init_fields)
  have t: "take (length ls) (lists ?w) = ls"
    by (simp add: init_fields)
  have z: "current (lb ?w) = 0"
    by (simp add: init_fields)
  have s: "fst (selections (length (ls ! backends)) ?w) = map Some (ls ! backends)"
    using selections_from_zero [OF z] by (simp only: h)
  from h c r t z s show ?thesis by blast
qed

theorem init_healthy_is_fresh_copy_witness:
  "(0::nat) < length [my_servers]
     \<and> healthy lb_world = my_servers
     \<and> configured lb_world = my_servers
     \<and> healthy_backends (lb lb_world) = 1
     \<and> all_backends (lb lb_world) = 0
     \<and> fst (selections 3 lb_world)
         = [Some (''127.0.0.1'', 8001), Some (''127.0.0.1'', 8002), Some (''127.0.0.1'', 8003)]"
proof -
  have l: "(0::nat) < length [my_servers]" by simp
  note t = init_healthy_is_fresh_copy [OF l, of "''0.0.0.0''" 80, folded lb_world_def]
  have n: "length my_servers = 3" by (simp add: my_servers_def)
  from t have h: "healthy lb_world = my_servers" and c: "configured lb_world = my_servers"
    by simp_all
  from t have r: "healthy_backends (lb lb_world) = 1" by simp
  have a: "all_backends (lb lb_world) = 0" by (simp add: lb_world_def init_fields)
  from t have "fst (selections (length ([my_servers] ! 0)) lb_world) = map Some ([my_servers] ! 0)"
    by blast
  then have s: "fst (selections 3 lb_world)
         = [Some (''127.0.0.1'', 8001), Some (''127.0.0.1'', 8002), Some (''127.0.0.1'', 8003)]"
    unfolding nth_Cons_0 n by (simp add: my_servers_def)
  from l h c r a s show ?thesis by blast
qed

section \<open>The relay: properties\<close>

lemma sock_write_fields [simp]:
  "lb (sock_write s data w) = lb w" "lists (sock_write s data w) = lists w"
  "trace (sock_write s data w) = trace w"
  "length (socks (sock_write s data w)) = length (socks w)"
  by (simp_all add: sock_write_def)

lemma sock_write_closed [simp]:
  "closed (socks (sock_write s data w) ! t) = closed (socks w ! t)"
  by (cases "t = s"; cases "s < length (socks w)")
     (simp_all add: sock_write_def not_less list_update_beyond)

lemma sendall_fields [simp]:
  "lb (snd (snd (sendall s data tx w))) = lb w"
  "lists (snd (snd (sendall s data tx w))) = lists w"
  "trace (snd (snd (sendall s data tx w))) = trace w"
  "length (socks (snd (snd (sendall s data tx w)))) = length (socks w)"
  "closed (socks (snd (snd (sendall s data tx w))) ! t) = closed (socks w ! t)"
  by (simp_all add: sendall_def split: tx_mode.splits)

lemma sock_write_other [simp]:
  "t \<noteq> s \<Longrightarrow> socks (sock_write s data w) ! t = socks w ! t"
  by (simp add: sock_write_def)

lemma sendall_other [simp]:
  "t \<noteq> s \<Longrightarrow> socks (snd (snd (sendall s data tx w))) ! t = socks w ! t"
  by (simp add: sendall_def split: tx_mode.splits)

text \<open>A read returns at most as many bytes as the buffer size asked for.\<close>

lemma recv_bounded:
  "fst (recv s bufsize rx w) = Returned data \<Longrightarrow> length data \<le> bufsize"
  by (auto simp: recv_def split: if_splits list.splits rx_event.splits)

text \<open>The loop only writes to its destination: the balancer's fields, the list objects,
  the trace, the number of sockets, what is closed and every other socket are as before.\<close>

lemma proxy_loop_frame:
  "lb (snd (proxy_loop rx tx source destination w)) = lb w
     \<and> lists (snd (proxy_loop rx tx source destination w)) = lists w
     \<and> trace (snd (proxy_loop rx tx source destination w)) = trace w
     \<and> length (socks (snd (proxy_loop rx tx source destination w))) = length (socks w)
     \<and> (\<forall>t. closed (socks (snd (proxy_loop rx tx source destination w)) ! t) = closed (socks w ! t))
     \<and> (\<forall>t. t \<noteq> destination \<longrightarrow>
            socks (snd (proxy_loop rx tx source destination w)) ! t = socks w ! t)"
proof (induction rx tx source destination w rule: proxy_loop.induct)
  case (1 rx tx source destination w)
  show ?case
  proof (cases "recv source 4096 rx w")
    case (Pair r rx')
    show ?thesis
    proof (cases r)
      case (Returned data)
      show ?thesis
      proof (cases "data = []")
        case True
        with Pair Returned show ?thesis
          by (subst proxy_loop.simps)+ simp
      next
        case False
        obtain q tx' w' where s: "sendall destination data tx w = (q, tx', w')"
          by (cases "sendall destination data tx w") auto
        have f: "lb w' = lb w" "lists w' = lists w" "trace w' = trace w"
          "length (socks w') = length (socks w)" "\<And>t. closed (socks w' ! t) = closed (socks w ! t)"
          "\<And>t. t \<noteq> destination \<Longrightarrow> socks w' ! t = socks w ! t"
          using sendall_fields [of destination data tx w] sendall_other [of _ destination data tx w]
          by (simp_all add: s)
        show ?thesis
        proof (cases q)
          case (Returned u)
          from "1.IH" [OF Pair [symmetric] \<open>r = Returned data\<close> False s [symmetric] Returned refl]
          have "lb (snd (proxy_loop rx' tx' source destination w')) = lb w'
             \<and> lists (snd (proxy_loop rx' tx' source destination w')) = lists w'
             \<and> trace (snd (proxy_loop rx' tx' source destination w')) = trace w'
             \<and> length (socks (snd (proxy_loop rx' tx' source destination w'))) = length (socks w')
             \<and> (\<forall>t. closed (socks (snd (proxy_loop rx' tx' source destination w')) ! t) = closed (socks w' ! t))
             \<and> (\<forall>t. t \<noteq> destination \<longrightarrow>
                    socks (snd (proxy_loop rx' tx' source destination w')) ! t = socks w' ! t)" .
          moreover have "proxy_loop rx tx source destination w = proxy_loop rx' tx' source destination w'"
            using Pair \<open>r = Returned data\<close> False s Returned
            by (subst proxy_loop.simps) simp
          ultimately show ?thesis by (simp add: f)
        next
          case Raised
          with Pair \<open>r = Returned data\<close> False s f show ?thesis
            by (subst proxy_loop.simps)+ simp
        next
          case Blocked
          with Pair \<open>r = Returned data\<close> False s f show ?thesis
            by (subst proxy_loop.simps)+ simp
        qed
      qed
    next
      case Raised
      with Pair show ?thesis by (subst proxy_loop.simps)+ simp
    next
      case Blocked
      with Pair show ?thesis by (subst proxy_loop.simps)+ simp
    qed
  qed
qed

lemma sock_write_empty [simp]: "sock_write s [] w = w"
  by (simp add: sock_write_def)

lemma sock_write_append:
  "sock_write s ys (sock_write s xs w) = sock_write s (xs @ ys) w"
  by (cases "s < length (socks w)") (simp_all add: sock_write_def not_less list_update_beyond)

lemma sock_write_sent:
  "s < length (socks w) \<Longrightarrow> sent (socks (sock_write s data w) ! s) = sent (socks w ! s) @ data"
  by (simp add: sock_write_def)

lemma close_sent [simp]:
  "sent (socks (close s w) ! t) = sent (socks w ! t)"
  by (cases "t = s"; cases "s < length (socks w)")
     (simp_all add: close_def not_less list_update_beyond)

lemma sendall_accepts:
  assumes "\<not> closed (socks w ! s)" and "accepts tx (length data + n)"
  shows "\<exists>tx'. sendall s data tx w = (Returned (), tx', sock_write s data w) \<and> accepts tx' n"
  using assms by (cases tx) (auto simp: sendall_def)

lemma proxy_loop_delivers:
  assumes "\<not> closed (socks w ! source)" and "\<not> closed (socks w ! destination)"
    and "[] \<notin> set chunks" and "accepts tx (length (concat chunks))"
  shows "proxy_loop (map Data chunks @ Data [] # rest) tx source destination w
           = (Returned (), sock_write destination (concat chunks) w)"
  using assms
proof (induction "length (concat chunks) + length chunks" arbitrary: chunks tx w rule: less_induct)
  case less
  show ?case
  proof (cases chunks)
    case Nil
    with less.prems show ?thesis
      by (subst proxy_loop.simps) (simp add: recv_def)
  next
    case (Cons c cs)
    with less.prems have c: "c \<noteq> []" and cs: "[] \<notin> set cs" by auto
    show ?thesis
    proof (cases "length c \<le> 4096")
      case True
      have r: "recv source 4096 (Data c # map Data cs @ Data [] # rest) w
                 = (Returned c, map Data cs @ Data [] # rest)"
        using less.prems(1) True by (simp add: recv_def)
      obtain tx' where s: "sendall destination c tx w = (Returned (), tx', sock_write destination c w)"
        and a: "accepts tx' (length (concat cs))"
        using sendall_accepts [OF less.prems(2), of tx c "length (concat cs)"] less.prems(4)
        by (auto simp: Cons)
      have "proxy_loop (map Data cs @ Data [] # rest) tx' source destination (sock_write destination c w)
              = (Returned (), sock_write destination (concat cs) (sock_write destination c w))"
        using less.prems(1,2) c by (intro less.hyps cs a) (simp_all add: Cons)
      then show ?thesis
        using c unfolding Cons list.map append_Cons
        by (subst proxy_loop.simps) (simp add: r s sock_write_append)
    next
      case False
      let ?h = "take 4096 c" and ?t = "drop 4096 c"
      have t: "?t \<noteq> []" and h: "?h \<noteq> []" and lh: "length ?h = 4096" using False by auto
      have r: "recv source 4096 (Data c # map Data cs @ Data [] # rest) w
                 = (Returned ?h, map Data (?t # cs) @ Data [] # rest)"
        using less.prems(1) False by (simp add: recv_def)
      have len: "length (concat chunks) = length ?h + length (concat (?t # cs))"
        using False by (simp add: Cons)
      obtain tx' where s: "sendall destination ?h tx w = (Returned (), tx', sock_write destination ?h w)"
        and a: "accepts tx' (length (concat (?t # cs)))"
        using sendall_accepts [OF less.prems(2), of tx ?h "length (concat (?t # cs))"] less.prems(4)
        unfolding len by auto
      have "proxy_loop (map Data (?t # cs) @ Data [] # rest) tx' source destination (sock_write destination ?h w)
              = (Returned (), sock_write destination (concat (?t # cs)) (sock_write destination ?h w))"
      proof (rule less.hyps)
        show "length (concat (?t # cs)) + length (?t # cs) < length (concat chunks) + length chunks"
          using False by (simp add: Cons)
        show "[] \<notin> set (?t # cs)" using t cs by simp
        show "accepts tx' (length (concat (?t # cs)))" by (rule a)
      qed (use less.prems(1,2) in simp_all)
      moreover have "?h @ concat (?t # cs) = concat (c # cs)"
        by (simp add: append_assoc [symmetric] del: append_assoc)
      ultimately show ?thesis
        using h unfolding Cons list.map(2) [of Data c cs] append_Cons [of "Data c"]
        by (subst proxy_loop.simps) (simp add: r s sock_write_append del: concat.simps list.map)
    qed
  qed
qed

lemma proxy_loop_closed_source:
  "closed (socks w ! source) \<Longrightarrow> proxy_loop rx tx source destination w = (Raised, w)"
  by (subst proxy_loop.simps) (simp add: recv_def)

lemma proxy_loop_recv_error:
  "proxy_loop (RecvError # rx) tx source destination w = (Raised, w)"
  by (subst proxy_loop.simps) (simp add: recv_def)

lemma proxy_loop_nothing_left:
  "\<not> closed (socks w ! source) \<Longrightarrow> proxy_loop [] tx source destination w = (Blocked, w)"
  by (subst proxy_loop.simps) (simp add: recv_def)

lemma two_sockets_eval:
  "socks two_sockets = [\<lparr>closed = False, sent = []\<rparr>, \<lparr>closed = False, sent = []\<rparr>]"
  by (simp add: two_sockets_def one_client_def socket_new_def lb_world_def init_def)

text \<open>Whatever the destination does, \<open>sendall\<close> writes a prefix of the data, and all of
  it when it returns.\<close>

lemma sendall_prefix:
  "\<exists>j\<le>length data. snd (snd (sendall s data tx w)) = sock_write s (take j data) w
       \<and> (fst (sendall s data tx w) = Returned () \<longrightarrow> j = length data)"
proof (cases "closed (socks w ! s)")
  case True
  then have "snd (snd (sendall s data tx w)) = sock_write s (take 0 data) w"
    "fst (sendall s data tx w) \<noteq> Returned ()"
    by (simp_all add: sendall_def)
  then show ?thesis by blast
next
  case False
  show ?thesis
  proof (cases tx)
    case Accepts
    with False have "snd (snd (sendall s data tx w)) = sock_write s (take (length data) data) w"
      by (simp add: sendall_def)
    then show ?thesis by blast
  next
    case (Breaks m)
    show ?thesis
    proof (cases "length data \<le> m")
      case True
      with False Breaks have "snd (snd (sendall s data tx w)) = sock_write s (take (length data) data) w"
        by (simp add: sendall_def)
      then show ?thesis by blast
    next
      case le: False
      with False Breaks have "snd (snd (sendall s data tx w)) = sock_write s (take m data) w"
        "fst (sendall s data tx w) \<noteq> Returned ()" "m \<le> length data"
        by (simp_all add: sendall_def)
      then show ?thesis by blast
    qed
  next
    case (Stalls m)
    show ?thesis
    proof (cases "length data \<le> m")
      case True
      with False Stalls have "snd (snd (sendall s data tx w)) = sock_write s (take (length data) data) w"
        by (simp add: sendall_def)
      then show ?thesis by blast
    next
      case le: False
      with False Stalls have "snd (snd (sendall s data tx w)) = sock_write s (take m data) w"
        "fst (sendall s data tx w) \<noteq> Returned ()" "m \<le> length data"
        by (simp_all add: sendall_def)
      then show ?thesis by blast
    qed
  qed
qed

text \<open>One turn of the loop that reads non-empty data: the loop goes on only when the
  data was sent, and else ends as \<open>sendall\<close> did.\<close>

lemma proxy_loop_turn:
  assumes "recv source 4096 rx w = (Returned data, rx')" and "data \<noteq> []"
  shows "proxy_loop rx tx source destination w
           = (case sendall destination data tx w of
                (Returned u, tx', w') \<Rightarrow> proxy_loop rx' tx' source destination w'
              | (Raised, tx', w') \<Rightarrow> (Raised, w')
              | (Blocked, tx', w') \<Rightarrow> (Blocked, w'))"
  using assms by (subst proxy_loop.simps) simp

text \<open>
  Whatever the destination does, the loop writes a prefix of the bytes that arrive
  before the zero-length read, and all of them when it ends by \<^verbatim>\<open>break\<close>.
\<close>

lemma proxy_loop_prefix:
  assumes "[] \<notin> set chunks"
  shows "\<exists>k\<le>length (concat chunks).
           snd (proxy_loop (map Data chunks @ Data [] # rest) tx source destination w)
             = sock_write destination (take k (concat chunks)) w
           \<and> (fst (proxy_loop (map Data chunks @ Data [] # rest) tx source destination w) = Returned ()
                \<longrightarrow> k = length (concat chunks))"
  using assms
proof (induction "length (concat chunks) + length chunks" arbitrary: chunks tx w rule: less_induct)
  case less
  let ?rx = "map Data chunks @ Data [] # rest"
  show ?case
  proof (cases "closed (socks w ! source)")
    case True
    then have "proxy_loop ?rx tx source destination w = (Raised, w)"
      by (rule proxy_loop_closed_source)
    then have "snd (proxy_loop ?rx tx source destination w)
                 = sock_write destination (take 0 (concat chunks)) w"
      "fst (proxy_loop ?rx tx source destination w) \<noteq> Returned ()"
      by simp_all
    then show ?thesis by blast
  next
    case False
    note open_source = this
    show ?thesis
    proof (cases chunks)
      case Nil
      with open_source have "proxy_loop ?rx tx source destination w = (Returned (), w)"
        by (subst proxy_loop.simps) (simp add: recv_def)
      with Nil show ?thesis by simp
    next
      case (Cons c cs)
      with less.prems have c: "c \<noteq> []" and cs: "[] \<notin> set cs" by auto
      define h t where "h = take 4096 c" and "t = (if length c \<le> 4096 then cs else drop 4096 c # cs)"
      have ht: "h @ concat t = concat chunks"
        by (simp add: h_def t_def Cons append_assoc [symmetric] del: append_assoc)
      have h: "h \<noteq> []" using c by (simp add: h_def)
      have t: "[] \<notin> set t" using cs by (simp add: t_def)
      have smaller: "length (concat t) + length t < length (concat chunks) + length chunks"
        using c by (auto simp: t_def Cons)
      have r: "recv source 4096 ?rx w = (Returned h, map Data t @ Data [] # rest)"
        using open_source by (simp add: recv_def Cons h_def t_def)
      note turn = proxy_loop_turn [OF r h, of tx destination]
      obtain q tx' w' where s: "sendall destination h tx w = (q, tx', w')"
        by (cases "sendall destination h tx w") auto
      from sendall_prefix [of h destination tx w] obtain j where
        j: "j \<le> length h" "w' = sock_write destination (take j h) w"
          "q = Returned () \<longrightarrow> j = length h"
        by (auto simp: s)
      show ?thesis
      proof (cases q)
        case (Returned u)
        with j have w': "w' = sock_write destination h w" by simp
        from less.hyps [OF smaller t, of tx' w'] obtain k where
          k: "k \<le> length (concat t)"
            "snd (proxy_loop (map Data t @ Data [] # rest) tx' source destination w')
               = sock_write destination (take k (concat t)) w'"
            "fst (proxy_loop (map Data t @ Data [] # rest) tx' source destination w') = Returned ()
               \<longrightarrow> k = length (concat t)"
          by blast
        have e: "proxy_loop ?rx tx source destination w
                   = proxy_loop (map Data t @ Data [] # rest) tx' source destination w'"
          by (simp add: turn s Returned)
        have "snd (proxy_loop ?rx tx source destination w)
                = sock_write destination (take k (concat t)) w'"
          by (simp only: e k(2))
        also have "\<dots> = sock_write destination (h @ take k (concat t)) w"
          by (simp add: w' sock_write_append)
        also have "h @ take k (concat t) = take (length h + k) (concat chunks)"
          by (simp add: ht [symmetric])
        finally have "snd (proxy_loop ?rx tx source destination w)
                     = sock_write destination (take (length h + k) (concat chunks)) w" .
        moreover have "length h + k \<le> length (concat chunks)"
          using k(1) by (simp add: ht [symmetric])
        moreover have "fst (proxy_loop ?rx tx source destination w) = Returned ()
                         \<longrightarrow> length h + k = length (concat chunks)"
          using k(3) by (simp add: e ht [symmetric])
        ultimately show ?thesis by blast
      next
        case Raised
        have "take j (concat chunks) = take j h"
          using j(1) by (simp add: ht [symmetric])
        then have "snd (proxy_loop ?rx tx source destination w)
                     = sock_write destination (take j (concat chunks)) w"
          "fst (proxy_loop ?rx tx source destination w) \<noteq> Returned ()"
          by (simp_all add: turn s Raised j(2))
        moreover have "j \<le> length (concat chunks)"
          using j(1) by (simp add: ht [symmetric])
        ultimately show ?thesis by blast
      next
        case Blocked
        have "take j (concat chunks) = take j h"
          using j(1) by (simp add: ht [symmetric])
        then have "snd (proxy_loop ?rx tx source destination w)
                     = sock_write destination (take j (concat chunks)) w"
          "fst (proxy_loop ?rx tx source destination w) \<noteq> Returned ()"
          by (simp_all add: turn s Blocked j(2))
        moreover have "j \<le> length (concat chunks)"
          using j(1) by (simp add: ht [symmetric])
        ultimately show ?thesis by blast
      qed
    qed
  qed
qed

text \<open>
  Claim C7. The source holds the bytes of \<open>chunks\<close> (each arrival non-empty; a read
  takes at most 4096 bytes of an arrival and leaves the rest for the next read) and then
  a zero-length read. Whenever the loop of \<open>proxy_data\<close> gets to that zero-length read,
  that is, ends by \<^verbatim>\<open>break\<close>, \<open>proxy_data\<close> returns having written exactly those bytes,
  unchanged and in order, to the destination, and having closed the source and the
  destination after the last write. It does get there when both sockets are open and
  the destination takes that many bytes. In every case what it has written is a prefix
  of those bytes.
\<close>

theorem proxy_data_delivers:
  assumes "source < length (socks w)" and "destination < length (socks w)"
    and "[] \<notin> set chunks"
  shows "(fst (proxy_loop (map Data chunks @ Data [] # rest) tx source destination w) = Returned () \<longrightarrow>
            proxy_data (map Data chunks @ Data [] # rest) tx source destination w
              = (Returned (), close destination (close source (sock_write destination (concat chunks) w)))
            \<and> sent (socks (snd (proxy_data (map Data chunks @ Data [] # rest) tx source destination w)) ! destination)
                = sent (socks w ! destination) @ concat chunks
            \<and> closed (socks (snd (proxy_data (map Data chunks @ Data [] # rest) tx source destination w)) ! destination)
            \<and> closed (socks (snd (proxy_data (map Data chunks @ Data [] # rest) tx source destination w)) ! source))
       \<and> (\<not> closed (socks w ! source) \<and> \<not> closed (socks w ! destination)
            \<and> accepts tx (length (concat chunks)) \<longrightarrow>
            fst (proxy_loop (map Data chunks @ Data [] # rest) tx source destination w) = Returned ())
       \<and> (\<exists>k\<le>length (concat chunks).
            sent (socks (snd (proxy_data (map Data chunks @ Data [] # rest) tx source destination w)) ! destination)
              = sent (socks w ! destination) @ take k (concat chunks))"
proof -
  let ?rx = "map Data chunks @ Data [] # rest"
  obtain r w' where l: "proxy_loop ?rx tx source destination w = (r, w')"
    by (cases "proxy_loop ?rx tx source destination w") auto
  from proxy_loop_prefix [OF assms(3), of rest tx source destination w] obtain k where
    k: "k \<le> length (concat chunks)" "w' = sock_write destination (take k (concat chunks)) w"
      "r = Returned () \<longrightarrow> k = length (concat chunks)"
    by (auto simp: l)
  have written: "sent (socks w' ! destination) = sent (socks w ! destination) @ take k (concat chunks)"
    using assms(2) by (simp add: k(2) sock_write_sent)
  have at_end: "proxy_data ?rx tx source destination w
                  = (Returned (), close destination (close source (sock_write destination (concat chunks) w)))
        \<and> sent (socks (snd (proxy_data ?rx tx source destination w)) ! destination)
            = sent (socks w ! destination) @ concat chunks
        \<and> closed (socks (snd (proxy_data ?rx tx source destination w)) ! destination)
        \<and> closed (socks (snd (proxy_data ?rx tx source destination w)) ! source)"
    if "fst (proxy_loop ?rx tx source destination w) = Returned ()"
  proof -
    from that k(3) have "k = length (concat chunks)" and "r = Returned ()"
      by (simp_all add: l)
    with k(2) assms(1,2) show ?thesis
      by (simp add: proxy_data_def l sock_write_sent close_keeps_closed)
  qed
  have gets_there: "fst (proxy_loop ?rx tx source destination w) = Returned ()"
    if "\<not> closed (socks w ! source)" "\<not> closed (socks w ! destination)"
      "accepts tx (length (concat chunks))"
    by (simp add: proxy_loop_delivers [OF that(1,2) assms(3) that(3)])
  have "sent (socks (snd (proxy_data ?rx tx source destination w)) ! destination)
          = sent (socks w' ! destination)"
    by (cases r) (simp_all add: proxy_data_def l)
  with written k(1) have prefix: "\<exists>k\<le>length (concat chunks).
      sent (socks (snd (proxy_data ?rx tx source destination w)) ! destination)
        = sent (socks w ! destination) @ take k (concat chunks)"
    by auto
  from at_end gets_there prefix show ?thesis by blast
qed

theorem proxy_data_delivers_witness:
  "(0::nat) < length (socks two_sockets) \<and> (1::nat) < length (socks two_sockets)
     \<and> [] \<notin> set [''GET '', ''/ HTTP/1.0'']
     \<and> \<not> closed (socks two_sockets ! 0) \<and> \<not> closed (socks two_sockets ! 1)
     \<and> accepts (Breaks 14) (length (concat [''GET '', ''/ HTTP/1.0'']))
     \<and> fst (proxy_loop [Data ''GET '', Data ''/ HTTP/1.0'', Data []] (Breaks 14) 0 1 two_sockets) = Returned ()
     \<and> fst (proxy_data [Data ''GET '', Data ''/ HTTP/1.0'', Data []] (Breaks 14) 0 1 two_sockets) = Returned ()
     \<and> sent (socks (snd (proxy_data [Data ''GET '', Data ''/ HTTP/1.0'', Data []] (Breaks 14) 0 1 two_sockets)) ! 1)
         = ''GET / HTTP/1.0''
     \<and> closed (socks (snd (proxy_data [Data ''GET '', Data ''/ HTTP/1.0'', Data []] (Breaks 14) 0 1 two_sockets)) ! 1)
     \<and> closed (socks (snd (proxy_data [Data ''GET '', Data ''/ HTTP/1.0'', Data []] (Breaks 14) 0 1 two_sockets)) ! 0)"
  using proxy_data_delivers [of 0 two_sockets 1 "[''GET '', ''/ HTTP/1.0'']" "[]" "Breaks 14"]
  by (simp add: two_sockets_eval sock_write_def close_def)

text \<open>
  Claim C8. \<open>proxy_data\<close> never raises. Whenever its loop ends, by the \<^verbatim>\<open>break\<close>
  after a zero-length read or by an exception of \<^verbatim>\<open>recv\<close> or \<^verbatim>\<open>sendall\<close>, it returns
  normally with both its source and its destination closed; the balancer's fields, the
  list objects, the trace and every socket other than these two are as before.
\<close>

theorem proxy_data_closes_both:
  assumes "source < length (socks w)" and "destination < length (socks w)"
  shows "fst (proxy_data rx tx source destination w) \<noteq> Raised
       \<and> (fst (proxy_loop rx tx source destination w) \<noteq> Blocked \<longrightarrow>
            fst (proxy_data rx tx source destination w) = Returned ()
            \<and> closed (socks (snd (proxy_data rx tx source destination w)) ! source)
            \<and> closed (socks (snd (proxy_data rx tx source destination w)) ! destination))
       \<and> (fst (proxy_loop rx tx source destination w) = Blocked \<longrightarrow>
            fst (proxy_data rx tx source destination w) = Blocked)
       \<and> lb (snd (proxy_data rx tx source destination w)) = lb w
       \<and> lists (snd (proxy_data rx tx source destination w)) = lists w
       \<and> trace (snd (proxy_data rx tx source destination w)) = trace w
       \<and> (\<forall>t. t \<noteq> source \<and> t \<noteq> destination \<longrightarrow>
             socks (snd (proxy_data rx tx source destination w)) ! t = socks w ! t)"
proof -
  obtain r w' where l: "proxy_loop rx tx source destination w = (r, w')"
    by (cases "proxy_loop rx tx source destination w") auto
  have f: "lb w' = lb w" "lists w' = lists w" "trace w' = trace w"
    "length (socks w') = length (socks w)"
    "\<And>t. t \<noteq> destination \<Longrightarrow> socks w' ! t = socks w ! t"
    using proxy_loop_frame [of rx tx source destination w] by (simp_all add: l)
  show ?thesis
    using assms by (cases r) (simp_all add: proxy_data_def l f close_keeps_closed)
qed

theorem proxy_data_closes_both_witness:
  "(0::nat) < length (socks two_sockets) \<and> (1::nat) < length (socks two_sockets)
     \<and> fst (proxy_loop [Data ''ab'', RecvError] Accepts 0 1 two_sockets) = Raised
     \<and> fst (proxy_data [Data ''ab'', RecvError] Accepts 0 1 two_sockets) = Returned ()
     \<and> closed (socks (snd (proxy_data [Data ''ab'', RecvError] Accepts 0 1 two_sockets)) ! 0)
     \<and> closed (socks (snd (proxy_data [Data ''ab'', RecvError] Accepts 0 1 two_sockets)) ! 1)
     \<and> fst (proxy_loop [Data ''ab''] (Breaks 1) 0 1 two_sockets) = Raised
     \<and> fst (proxy_data [Data ''ab''] (Breaks 1) 0 1 two_sockets) = Returned ()
     \<and> closed (socks (snd (proxy_data [Data ''ab''] (Breaks 1) 0 1 two_sockets)) ! 0)
     \<and> closed (socks (snd (proxy_data [Data ''ab''] (Breaks 1) 0 1 two_sockets)) ! 1)
     \<and> fst (proxy_loop [Data []] Accepts 0 1 two_sockets) = Returned ()
     \<and> fst (proxy_data [Data []] Accepts 0 1 two_sockets) = Returned ()
     \<and> closed (socks (snd (proxy_data [Data []] Accepts 0 1 two_sockets)) ! 0)
     \<and> closed (socks (snd (proxy_data [Data []] Accepts 0 1 two_sockets)) ! 1)"
proof -
  have read_error: "fst (proxy_loop [Data ''ab'', RecvError] Accepts 0 1 two_sockets) = Raised"
    by (subst proxy_loop.simps, simp add: recv_def sendall_def two_sockets_eval sock_write_def)+
  have write_error: "fst (proxy_loop [Data ''ab''] (Breaks 1) 0 1 two_sockets) = Raised"
    by (subst proxy_loop.simps) (simp add: recv_def sendall_def two_sockets_eval sock_write_def)
  have end_of_stream: "fst (proxy_loop [Data []] Accepts 0 1 two_sockets) = Returned ()"
    by (subst proxy_loop.simps) (simp add: recv_def two_sockets_eval)
  show ?thesis
    using read_error write_error end_of_stream
      proxy_data_closes_both [of 0 two_sockets 1 "[Data ''ab'', RecvError]" Accepts]
      proxy_data_closes_both [of 0 two_sockets 1 "[Data ''ab'']" "Breaks 1"]
      proxy_data_closes_both [of 0 two_sockets 1 "[Data []]" Accepts]
    by (simp add: two_sockets_eval)
qed

section \<open>The cursor and the lists: what each step changes\<close>

lemma get_next_server_frame [simp]:
  "lists (snd (get_next_server w)) = lists w"
  "socks (snd (get_next_server w)) = socks w"
  "all_backends (lb (snd (get_next_server w))) = all_backends (lb w)"
  "healthy_backends (lb (snd (get_next_server w))) = healthy_backends (lb w)"
  by (simp_all add: get_next_server_def Let_def)

lemma get_next_server_current:
  "current (lb (snd (get_next_server w)))
     = (if healthy w = [] then current (lb w) else current (lb w) + 1)"
  by (simp add: get_next_server_def Let_def)

lemma handle_request_frame [simp]:
  "lists (snd (handle_request env client_conn w)) = lists w"
  "all_backends (lb (snd (handle_request env client_conn w))) = all_backends (lb w)"
  "healthy_backends (lb (snd (handle_request env client_conn w))) = healthy_backends (lb w)"
  "current (lb (snd (handle_request env client_conn w))) = current (lb (snd (get_next_server w)))"
  by (auto simp: handle_request_def Let_def socket_new_def split: prod.splits option.splits
      dest: arg_cong [where f = snd])

lemma proxy_data_frame [simp]:
  "lb (snd (proxy_data rx tx source destination w)) = lb w"
  "lists (snd (proxy_data rx tx source destination w)) = lists w"
proof -
  obtain r w' where l: "proxy_loop rx tx source destination w = (r, w')"
    by (cases "proxy_loop rx tx source destination w") auto
  have f: "lb w' = lb w" "lists w' = lists w"
    using proxy_loop_frame [of rx tx source destination w] by (simp_all add: l)
  show "lb (snd (proxy_data rx tx source destination w)) = lb w"
    "lists (snd (proxy_data rx tx source destination w)) = lists w"
    by (cases r; simp add: proxy_data_def l f)+
qed

lemma health_check_current [simp]:
  "current (lb (snd (health_check ok s))) = current (lb (snd s))"
  by (cases "(ok, s)" rule: health_check.cases) (simp_all add: Let_def)

lemma health_check_all_backends [simp]:
  "all_backends (lb (snd (health_check ok s))) = all_backends (lb (snd s))"
  by (cases "(ok, s)" rule: health_check.cases) (simp_all add: Let_def)

lemma health_check_socks [simp]:
  "socks (snd (health_check ok s)) = socks (snd s)"
  by (cases "(ok, s)" rule: health_check.cases) (simp_all add: Let_def)

lemma health_steps_current [simp]:
  "current (lb (snd (health_steps oks s))) = current (lb (snd s))"
  by (induction oks arbitrary: s) simp_all

lemma health_steps_append:
  "health_steps (xs @ ys) s = health_steps ys (health_steps xs s)"
  by (induction xs arbitrary: s) simp_all

text \<open>
  Claim C9. Only a successful selection moves the cursor. No step of the health monitor
  changes it, whatever the step is (so no publication does, whether the healthy list
  shrinks, grows or becomes empty), nor does any number of such steps; a call of
  \<open>get_next_server\<close> on an empty healthy list leaves it as it is; and of all the steps of
  the balancer's threads only \<open>handle_request\<close> on a non-empty healthy list changes it,
  by one.
\<close>

theorem cursor_moved_only_by_selection:
  "current (lb (snd (health_check ok (pc, w)))) = current (lb w)
     \<and> current (lb (snd (health_steps oks (pc, w)))) = current (lb w)
     \<and> (healthy w = [] \<longrightarrow> current (lb (snd (get_next_server w))) = current (lb w))
     \<and> current (lb (snd (step a (pc, w))))
         = (case a of
              Handle env client_conn \<Rightarrow>
                if healthy w = [] then current (lb w) else current (lb w) + 1
            | _ \<Rightarrow> current (lb w))"
proof -
  have monitor: "current (lb (snd (health_check ok (pc, w)))) = current (lb w)"
    by (cases pc) (simp_all add: Let_def)
  have monitor_steps: "current (lb (snd (health_steps oks (pc, w)))) = current (lb w)"
    by simp
  have rejected: "current (lb (snd (get_next_server w))) = current (lb w)" if "healthy w = []"
    using that by (simp add: get_next_server_current)
  have any_step: "current (lb (snd (step a (pc, w))))
         = (case a of
              Handle env client_conn \<Rightarrow>
                if healthy w = [] then current (lb w) else current (lb w) + 1
            | _ \<Rightarrow> current (lb w))"
  proof (cases a)
    case (Health ok')
    then show ?thesis by simp
  next
    case Accept
    then show ?thesis by simp
  next
    case (Handle env client_conn)
    then show ?thesis by (simp add: get_next_server_current)
  next
    case (Relay rx tx source destination)
    then show ?thesis by simp
  qed
  from monitor monitor_steps rejected any_step show ?thesis by blast
qed

lemma all_down_current: "current (lb all_down) = 0"
  unfolding all_down_def one_client_def
  by (simp add: lb_world_def init_def)

theorem cursor_moved_only_by_selection_witness:
  "healthy all_down = []
     \<and> current (lb (snd (get_next_server all_down))) = 0
     \<and> current (lb (snd (step (Handle NoFault 0) (Sleeping, all_down)))) = 0
     \<and> current (lb (snd (step (Handle NoFault 0) (Start, one_client)))) = 1
     \<and> current (lb all_down) = current (lb one_client)"
proof -
  have h: "healthy one_client \<noteq> []"
    by (simp add: one_client_def healthy_def lb_world_def init_def my_servers_def)
  have c: "current (lb one_client) = 0"
    by (simp add: one_client_def lb_world_def init_def)
  show ?thesis
    using cursor_moved_only_by_selection [of False Sleeping all_down "[]" "Handle NoFault 0"]
      cursor_moved_only_by_selection [of False Start one_client "cycle_steps [False, False, False]" "Handle NoFault 0"]
    by (simp add: all_down_eval all_down_current h c del: step.simps)
qed

section \<open>The healthy list stays within the configured list\<close>

lemma invariant_init:
  assumes "backends < length ls"
  shows "invariant (Start, init a p backends ls)"
  using assms by (simp add: invariant_def init_fields healthy_def configured_def nth_append)

text \<open>A step that leaves the list objects and the two references alone keeps the
  invariant and the configured list.\<close>

lemma invariant_same_lists:
  assumes "invariant (pc, w)" and "lists w' = lists w"
    and "all_backends (lb w') = all_backends (lb w)"
    and "healthy_backends (lb w') = healthy_backends (lb w)"
  shows "invariant (pc, w')"
proof -
  have c: "configured w' = configured w" and h: "healthy w' = healthy w"
    using assms(2-4) by (simp_all add: configured_def healthy_def)
  have "monitor_ok pc w' = monitor_ok pc w"
    using assms(2-4) c by (cases pc) simp_all
  with assms c h show ?thesis by (simp add: invariant_def)
qed

lemma invariant_health_check:
  assumes "invariant s"
  shows "invariant (health_check ok s) \<and> configured (snd (health_check ok s)) = configured (snd s)"
proof (cases "(ok, s)" rule: health_check.cases)
  case (1 ok' w)
  with assms show ?thesis
    by (simp add: invariant_def healthy_def configured_def nth_append)
next
  case (2 ok' alive i w)
  with assms have a: "all_backends (lb w) < length (lists w)"
    and h: "healthy_backends (lb w) < length (lists w)"
    and s: "subseq (healthy w) (configured w)"
    and al: "alive < length (lists w)" "alive \<noteq> all_backends (lb w)" "alive \<noteq> healthy_backends (lb w)"
    and sa: "subseq (lists w ! alive) (take i (configured w))"
    by (simp_all add: invariant_def)
  show ?thesis
  proof (cases "i < length (configured w)")
    case True
    have t: "take (Suc i) (configured w) = take i (configured w) @ [configured w ! i]"
      using True by (simp add: take_Suc_conv_app_nth)
    have grow: "subseq (lists w ! alive @ [configured w ! i]) (take (Suc i) (configured w))"
      unfolding t using sa by (simp add: list_emb_append_mono)
    have keep: "subseq (lists w ! alive) (take (Suc i) (configured w))"
      unfolding t using sa by (rule list_emb_prefix)
    show ?thesis
    proof (cases ok)
      case True
      let ?w' = "w\<lparr>lists := (lists w)[alive := lists w ! alive @ [configured w ! i]]\<rparr>"
      have c: "configured ?w' = configured w" and hh: "healthy ?w' = healthy w"
        using al by (simp_all add: configured_def healthy_def)
      have "invariant (Probing alive (Suc i), ?w')"
        using a h s al grow by (simp add: invariant_def c hh)
      with 2 True \<open>i < length (configured w)\<close> c show ?thesis
        by (simp add: Let_def)
    next
      case False
      let ?w' = "print (ServerIsDown (snd (configured w ! i))) w"
      have "invariant (Probing alive (Suc i), ?w')"
        using a h s al keep by (simp add: invariant_def)
      with 2 False \<open>i < length (configured w)\<close> show ?thesis
        by (simp add: Let_def)
    qed
  next
    case False
    then have "take i (configured w) = configured w" by simp
    with 2 False a h s al sa show ?thesis
      by (simp add: invariant_def)
  qed
next
  case (3 ok' alive w)
  with assms show ?thesis
    by (simp add: invariant_def healthy_def configured_def)
next
  case (4 ok' w)
  with assms show ?thesis
    by (simp add: invariant_def healthy_def configured_def)
qed

lemma invariant_step:
  assumes "invariant s"
  shows "invariant (step a s) \<and> configured (snd (step a s)) = configured (snd s)"
proof (cases a)
  case (Health ok)
  with invariant_health_check [OF assms] show ?thesis by simp
next
  case Accept
  obtain pc w where s: "s = (pc, w)" by (cases s)
  from assms show ?thesis
    unfolding s Accept by (auto intro: invariant_same_lists simp: configured_def)
next
  case (Handle env client_conn)
  obtain pc w where s: "s = (pc, w)" by (cases s)
  from assms show ?thesis
    unfolding s Handle by (auto intro: invariant_same_lists simp: configured_def)
next
  case (Relay rx tx source destination)
  obtain pc w where s: "s = (pc, w)" by (cases s)
  from assms show ?thesis
    unfolding s Relay by (auto intro: invariant_same_lists simp: configured_def)
qed

lemma invariant_exec:
  assumes "invariant s"
  shows "invariant (exec acts s) \<and> configured (snd (exec acts s)) = configured (snd s)"
  using assms
proof (induction acts arbitrary: s)
  case Nil
  then show ?case by simp
next
  case (Cons a acts)
  from invariant_step [OF Cons.prems, of a] Cons.IH [of "step a s"]
  show ?case by simp
qed

text \<open>
  Claim C5. In every state the balancer reaches from its construction, by any steps of
  the health monitor, the listener, the dispatchers and the relays, the healthy list is
  a subset of the configured list (even a subsequence of it, possibly empty), and the
  configured list is the one the balancer was built with.
\<close>

theorem healthy_subset_of_configured:
  assumes "backends < length ls"
  shows "set (healthy (snd (exec acts (Start, init a p backends ls))))
           \<subseteq> set (configured (snd (exec acts (Start, init a p backends ls))))
       \<and> subseq (healthy (snd (exec acts (Start, init a p backends ls))))
           (configured (snd (exec acts (Start, init a p backends ls))))
       \<and> configured (snd (exec acts (Start, init a p backends ls))) = ls ! backends"
proof -
  let ?s = "exec acts (Start, init a p backends ls)"
  from invariant_exec [OF invariant_init [OF assms, of a p], of acts]
  have i: "invariant ?s" and c: "configured (snd ?s) = configured (init a p backends ls)"
    by simp_all
  from i have s: "subseq (healthy (snd ?s)) (configured (snd ?s))"
    by (simp add: invariant_def)
  then have "set (healthy (snd ?s)) \<subseteq> set (configured (snd ?s))"
    by (auto elim: list_emb_set)
  moreover have "configured (init a p backends ls) = ls ! backends"
    using assms by (simp add: configured_def init_fields nth_append)
  ultimately show ?thesis using s c by simp
qed

lemma second_down_eval:
  "healthy (snd (exec second_down (Start, lb_world))) = [(''127.0.0.1'', 8001), (''127.0.0.1'', 8003)]"
  by (simp add: second_down_def b_fails_def cycle_steps_def lb_world_def init_def healthy_def configured_def
      my_servers_def handle_request_def get_next_server_def socket_new_def Let_def
      on_exception_def close_def print_def connect_def start_thread_def)

theorem healthy_subset_of_configured_witness:
  "(0::nat) < length [my_servers]
     \<and> healthy (snd (exec second_down (Start, lb_world)))
         = [(''127.0.0.1'', 8001), (''127.0.0.1'', 8003)]
     \<and> set (healthy (snd (exec second_down (Start, lb_world)))) \<subseteq> set my_servers
     \<and> configured (snd (exec second_down (Start, lb_world))) = my_servers"
  using healthy_subset_of_configured [of 0 "[my_servers]" second_down "''0.0.0.0''" 80,
      folded lb_world_def] second_down_eval
  by auto

section \<open>One cycle of the health monitor\<close>

lemma succeeded_simps [simp]:
  "succeeded [] oks = []" "succeeded servers [] = []"
  "succeeded (server # servers) (ok # oks) = (if ok then [server] else []) @ succeeded servers oks"
  by (simp_all add: succeeded_def)

lemma succeeded_nths:
  "succeeded servers oks = nths servers {i. i < length oks \<and> oks ! i}"
proof (induction servers arbitrary: oks)
  case Nil
  then show ?case by simp
next
  case (Cons server servers)
  show ?case
  proof (cases oks)
    case Nil
    then show ?thesis by simp
  next
    case (Cons ok oks')
    have "{j. Suc j \<in> {i. i < length oks \<and> oks ! i}} = {i. i < length oks' \<and> oks' ! i}"
      by (auto simp: Cons)
    then show ?thesis
      by (simp add: nths_Cons Cons.IH [of oks'] Cons)
  qed
qed

text \<open>The probes of the loop: each success is appended to the monitor's own list
  object, nothing else of the list objects and of the balancer's fields changes.\<close>

lemma probing_steps:
  assumes "alive < length (lists w)" and "alive \<noteq> all_backends (lb w)"
    and "i + length oks \<le> length (configured w)"
  shows "\<exists>w'. health_steps oks (Probing alive i, w) = (Probing alive (i + length oks), w')
           \<and> lists w' = (lists w)[alive := lists w ! alive @ succeeded (drop i (configured w)) oks]
           \<and> lb w' = lb w \<and> socks w' = socks w"
  using assms
proof (induction oks arbitrary: i w)
  case Nil
  then show ?case by simp
next
  case (Cons ok oks)
  let ?x = "configured w ! i"
  let ?w1 = "if ok then w\<lparr>lists := (lists w)[alive := lists w ! alive @ [?x]]\<rparr>
             else print (ServerIsDown (snd ?x)) w"
  from Cons.prems have i: "i < length (configured w)" by simp
  have st: "health_check ok (Probing alive i, w) = (Probing alive (Suc i), ?w1)"
    using i by (simp add: Let_def)
  have c1: "configured ?w1 = configured w"
    using Cons.prems(2) by (simp add: configured_def)
  have l1: "alive < length (lists ?w1)" "alive \<noteq> all_backends (lb ?w1)"
    "Suc i + length oks \<le> length (configured ?w1)"
    using Cons.prems c1 by simp_all
  from Cons.IH [OF l1] obtain w' where
    w': "health_steps oks (Probing alive (Suc i), ?w1) = (Probing alive (Suc i + length oks), w')"
      "lists w' = (lists ?w1)[alive := lists ?w1 ! alive @ succeeded (drop (Suc i) (configured w)) oks]"
      "lb w' = lb ?w1" "socks w' = socks ?w1"
    unfolding c1 by blast
  have d: "drop i (configured w) = ?x # drop (Suc i) (configured w)"
    using i by (simp add: Cons_nth_drop_Suc)
  have "lists w' = (lists w)[alive := lists w ! alive @ succeeded (drop i (configured w)) (ok # oks)]"
    using Cons.prems(1) by (simp add: w'(2) d)
  moreover have "lb w' = lb w" "socks w' = socks w"
    by (simp_all add: w'(3,4))
  ultimately show ?case
    using w'(1) by (simp add: st del: health_check.simps)
qed

text \<open>The state after the allocation and the first \<open>k\<close> probes of a cycle.\<close>

lemma cycle_prefix:
  assumes "all_backends (lb w) < length (lists w)"
    and "length outcomes = length (configured w)" and "k \<le> length outcomes"
  shows "\<exists>w'. health_steps (take (Suc k) (cycle_steps outcomes)) (Start, w)
                = (Probing (length (lists w)) k, w')
           \<and> lists w' = lists w @ [succeeded (configured w) (take k outcomes)]
           \<and> lb w' = lb w \<and> socks w' = socks w"
proof -
  let ?w0 = "w\<lparr>lists := lists w @ [[]]\<rparr>"
  let ?a = "length (lists w)"
  have c0: "configured ?w0 = configured w"
    using assms(1) by (simp add: configured_def nth_append)
  have t: "take (Suc k) (cycle_steps outcomes) = False # take k outcomes"
    using assms(3) by (simp add: cycle_steps_def)
  have p: "?a < length (lists ?w0)" "?a \<noteq> all_backends (lb ?w0)"
    "0 + length (take k outcomes) \<le> length (configured ?w0)"
    using assms by (simp_all add: c0)
  from probing_steps [OF p] obtain w' where
    w': "health_steps (take k outcomes) (Probing ?a 0, ?w0) = (Probing ?a (0 + length (take k outcomes)), w')"
      "lists w' = (lists ?w0)[?a := lists ?w0 ! ?a @ succeeded (drop 0 (configured ?w0)) (take k outcomes)]"
      "lb w' = lb ?w0" "socks w' = socks ?w0"
    by blast
  have "health_steps (take (Suc k) (cycle_steps outcomes)) (Start, w) = (Probing ?a k, w')"
    using w'(1) assms(3) by (simp add: t)
  moreover have "lists w' = lists w @ [succeeded (configured w) (take k outcomes)]"
    by (simp add: w'(2) c0)
  moreover have "lb w' = lb w" "socks w' = socks w"
    by (simp_all add: w'(3,4))
  ultimately show ?thesis by blast
qed

text \<open>
  Claim C6. One cycle of the monitor, started in a state whose two list references are
  valid, with one probe outcome for each configured backend: after the last step the
  healthy list is exactly the configured backends whose probe succeeded, in configured
  order (the elements of the configured list at the indices of the successful probes),
  and the configured list is unchanged. After every proper prefix of the steps of the
  cycle the field \<open>healthy_backends\<close> is the reference it was and the healthy list is the
  list it was: the new list becomes visible as a whole, by the last step.
\<close>

theorem health_cycle_publishes_successes:
  assumes "all_backends (lb w) < length (lists w)"
    and "healthy_backends (lb w) < length (lists w)"
    and "length outcomes = length (configured w)"
  shows "fst (health_steps (cycle_steps outcomes) (Start, w)) = Sleeping
       \<and> healthy (snd (health_steps (cycle_steps outcomes) (Start, w)))
           = succeeded (configured w) outcomes
       \<and> succeeded (configured w) outcomes
           = nths (configured w) {i. i < length outcomes \<and> outcomes ! i}
       \<and> configured (snd (health_steps (cycle_steps outcomes) (Start, w))) = configured w
       \<and> (\<forall>k<length (cycle_steps outcomes).
             healthy_backends (lb (snd (health_steps (take k (cycle_steps outcomes)) (Start, w))))
               = healthy_backends (lb w)
             \<and> healthy (snd (health_steps (take k (cycle_steps outcomes)) (Start, w))) = healthy w)"
proof -
  let ?n = "length outcomes"
  let ?a = "length (lists w)"
  let ?run = "\<lambda>k. health_steps (take k (cycle_steps outcomes)) (Start, w)"
  have len: "length (cycle_steps outcomes) = ?n + 3"
    by (simp add: cycle_steps_def)
  txt \<open>The states during the loop.\<close>
  have probing: "\<exists>w'. ?run (Suc k) = (Probing ?a k, w')
      \<and> lists w' = lists w @ [succeeded (configured w) (take k outcomes)] \<and> lb w' = lb w"
    if "k \<le> ?n" for k
    using cycle_prefix [OF assms(1,3) that] by blast
  have same: "healthy w' = healthy w" "configured w' = configured w"
    if "lists w' = lists w @ [xs]" "lb w' = lb w" for w' xs
    using that assms(1,2) by (simp_all add: healthy_def configured_def nth_append)
  txt \<open>The state at the end of the loop, and the two steps after it.\<close>
  from probing [of ?n] obtain wn where
    wn: "?run (Suc ?n) = (Probing ?a ?n, wn)"
      "lists wn = lists w @ [succeeded (configured w) outcomes]" "lb wn = lb w"
    by auto
  have cn: "configured wn = configured w" and hn: "healthy wn = healthy w"
    using same [OF wn(2,3)] by simp_all
  have split2: "take (?n + 2) (cycle_steps outcomes) = take (Suc ?n) (cycle_steps outcomes) @ [False]"
    by (simp add: cycle_steps_def)
  have split3: "cycle_steps outcomes = take (Suc ?n) (cycle_steps outcomes) @ [False, False]"
    by (simp add: cycle_steps_def)
  have nn: "\<not> ?n < length (configured wn)"
    using assms(3) cn by simp
  have exit: "?run (?n + 2) = (Publishing ?a, wn)"
    unfolding split2 health_steps_append wn(1)
    by (simp add: nn)
  have final: "health_steps (cycle_steps outcomes) (Start, w)
                 = (Sleeping, wn\<lparr>lb := (lb wn)\<lparr>healthy_backends := ?a\<rparr>\<rparr>)"
    by (subst split3) (simp add: health_steps_append wn(1) nn)
  have published: "healthy (wn\<lparr>lb := (lb wn)\<lparr>healthy_backends := ?a\<rparr>\<rparr>)
                     = succeeded (configured w) outcomes"
    by (simp add: healthy_def wn(2))
  have conf: "configured (wn\<lparr>lb := (lb wn)\<lparr>healthy_backends := ?a\<rparr>\<rparr>) = configured w"
    using cn by (simp add: configured_def)
  txt \<open>Before the last step nothing of the healthy list has changed.\<close>
  have before: "healthy_backends (lb (snd (?run k))) = healthy_backends (lb w)
                  \<and> healthy (snd (?run k)) = healthy w"
    if "k < length (cycle_steps outcomes)" for k
  proof -
    from that len have "k = 0 \<or> (\<exists>j. k = Suc j \<and> j \<le> ?n) \<or> k = ?n + 2"
      by (cases k) (simp, arith)
    then consider "k = 0" | j where "k = Suc j" "j \<le> ?n" | "k = ?n + 2"
      by blast
    then show ?thesis
    proof cases
      case 1
      then show ?thesis by simp
    next
      case 2
      from probing [OF 2(2)] obtain w' where
        w': "?run (Suc j) = (Probing ?a j, w')"
          "lists w' = lists w @ [succeeded (configured w) (take j outcomes)]" "lb w' = lb w"
        by auto
      show ?thesis
        unfolding 2(1) w'(1) using same(1) [OF w'(2,3)] w'(3) by simp
    next
      case 3
      show ?thesis
        unfolding 3 exit using hn wn(3) by simp
    qed
  qed
  from final published conf before succeeded_nths [of "configured w" outcomes]
  show ?thesis by simp
qed


theorem health_cycle_publishes_successes_witness:
  "all_backends (lb lb_world) < length (lists lb_world)
     \<and> healthy_backends (lb lb_world) < length (lists lb_world)
     \<and> length b_fails = length (configured lb_world)
     \<and> healthy (snd (health_steps (cycle_steps b_fails) (Start, lb_world)))
         = [(''127.0.0.1'', 8001), (''127.0.0.1'', 8003)]
     \<and> healthy (snd (health_steps (take 4 (cycle_steps b_fails)) (Start, lb_world))) = my_servers"
proof -
  have a: "all_backends (lb lb_world) < length (lists lb_world)"
    and h: "healthy_backends (lb lb_world) < length (lists lb_world)"
    and c: "configured lb_world = my_servers" and hw: "healthy lb_world = my_servers"
    by (simp_all add: lb_world_def init_fields configured_def healthy_def)
  have l: "length b_fails = length (configured lb_world)"
    by (simp add: c b_fails_def my_servers_def)
  note t = health_cycle_publishes_successes [OF a h l]
  from t have "healthy (snd (health_steps (cycle_steps b_fails) (Start, lb_world)))
                 = succeeded (configured lb_world) b_fails"
    by blast
  then have p: "healthy (snd (health_steps (cycle_steps b_fails) (Start, lb_world)))
                  = [(''127.0.0.1'', 8001), (''127.0.0.1'', 8003)]"
    by (simp add: c b_fails_def my_servers_def)
  have "(4::nat) < length (cycle_steps b_fails)"
    by (simp add: cycle_steps_def b_fails_def)
  with t have "healthy (snd (health_steps (take 4 (cycle_steps b_fails)) (Start, lb_world)))
                 = healthy lb_world"
    by blast
  then have q: "healthy (snd (health_steps (take 4 (cycle_steps b_fails)) (Start, lb_world))) = my_servers"
    by (simp only: hw)
  from a h l p q show ?thesis by blast
qed

end
